theory Spec2Isabelle
  imports Main "HOL-Library.Product_Lexorder"
begin

section \<open>The graph container\<close>

text \<open>
  \<^verbatim>\<open>main.py\<close> keeps its graph in a \<^verbatim>\<open>networkx.Graph\<close>. That class stores one dictionary
  \<^verbatim>\<open>_adj\<close> from each node to the dictionary of its neighbours; both dictionaries keep the
  order in which keys were inserted, and every iteration that the application performs
  (\<^verbatim>\<open>G.nodes\<close>, \<^verbatim>\<open>G.degree()\<close>, \<^verbatim>\<open>G.edges()\<close>) follows that order. The model is therefore
  an association list from node to neighbour list, both in insertion order. Edge
  attributes are never used by the application and are left out.
\<close>

type_synonym graph = "(int \<times> int list) list"

definition nodes_nx :: "graph \<Rightarrow> int list" where
  "nodes_nx g = map fst g"

text \<open>\<^verbatim>\<open>d[k] = ...\<close> on a dictionary: an existing key keeps its place, a new one goes last.\<close>

definition put_key :: "int \<Rightarrow> int list \<Rightarrow> int list" where
  "put_key k ks = (if k \<in> set ks then ks else ks @ [k])"

text \<open>Apply \<open>f\<close> to the neighbour dictionary stored under node \<open>u\<close>.\<close>

definition on_adj :: "int \<Rightarrow> (int list \<Rightarrow> int list) \<Rightarrow> graph \<Rightarrow> graph" where
  "on_adj u f g = map (\<lambda>(n, nbrs). if n = u then (n, f nbrs) else (n, nbrs)) g"

text \<open>\<^verbatim>\<open>Graph.add_node(n)\<close>: a node that is already there is left alone.\<close>

definition add_node_nx :: "int \<Rightarrow> graph \<Rightarrow> graph" where
  "add_node_nx n g = (if n \<in> set (nodes_nx g) then g else g @ [(n, [])])"

text \<open>
  \<^verbatim>\<open>Graph.add_edge(u, v)\<close>: both endpoints are created when missing, then
  \<^verbatim>\<open>_adj[u][v]\<close> and \<^verbatim>\<open>_adj[v][u]\<close> are set. Nothing here rejects \<open>u = v\<close>.
\<close>

definition add_edge_nx :: "int \<Rightarrow> int \<Rightarrow> graph \<Rightarrow> graph" where
  "add_edge_nx u v g =
     on_adj v (put_key u) (on_adj u (put_key v) (add_node_nx v (add_node_nx u g)))"

text \<open>\<^verbatim>\<open>Graph.has_edge(u, v)\<close>: \<^verbatim>\<open>v in _adj[u]\<close>, and False when \<open>u\<close> is no node.\<close>

definition has_edge :: "graph \<Rightarrow> int \<Rightarrow> int \<Rightarrow> bool" where
  "has_edge g u v = (case map_of g u of None \<Rightarrow> False | Some nbrs \<Rightarrow> v \<in> set nbrs)"

text \<open>
  \<^verbatim>\<open>Graph.remove_edge(u, v)\<close> deletes \<^verbatim>\<open>_adj[u][v]\<close> and, when \<open>u \<noteq> v\<close>, \<^verbatim>\<open>_adj[v][u]\<close>; a
  missing key raises \<^verbatim>\<open>NetworkXError\<close>. The exception leaves behind whatever was deleted
  before it, so the raising outcome carries the graph as well.
\<close>

datatype nx_outcome = Raised graph | Done graph

definition remove_edge_nx :: "int \<Rightarrow> int \<Rightarrow> graph \<Rightarrow> nx_outcome" where
  "remove_edge_nx u v g =
     (if \<not> has_edge g u v then Raised g
      else let g1 = on_adj u (remove1 v) g in
        if u \<noteq> v then
          (if \<not> has_edge g1 v u then Raised g1 else Done (on_adj v (remove1 u) g1))
        else Done g1)"

text \<open>
  \<^verbatim>\<open>G.degree()\<close> yields, for each node in order, the size of its neighbour dictionary plus
  one more when the node is its own neighbour (a self-loop counts twice).
\<close>

definition degree_nx :: "graph \<Rightarrow> (int \<times> nat) list" where
  "degree_nx g = map (\<lambda>(n, nbrs). (n, length nbrs + (if n \<in> set nbrs then 1 else 0))) g"

text \<open>
  \<^verbatim>\<open>G.number_of_edges()\<close> with no arguments is \<^verbatim>\<open>int(G.size())\<close>, and \<^verbatim>\<open>size\<close> is the sum
  of all degrees, integer-divided by two. It is not a count of stored edge objects.
\<close>

definition number_of_edges :: "graph \<Rightarrow> nat" where
  "number_of_edges g = sum_list (map snd (degree_nx g)) div 2"

text \<open>
  Iterating \<^verbatim>\<open>G.edges()\<close>: for every node \<open>n\<close> in order, every neighbour not among the
  nodes already visited gives the pair \<open>(n, nbr)\<close>; then \<open>n\<close> counts as visited. An edge is
  thus reported from the endpoint that was inserted first.
\<close>

fun edges_from :: "int list \<Rightarrow> graph \<Rightarrow> (int \<times> int) list" where
  "edges_from seen [] = []"
| "edges_from seen ((n, nbrs) # g) =
     map (Pair n) (filter (\<lambda>nbr. nbr \<notin> set seen) nbrs) @ edges_from (n # seen) g"

definition edges_nx :: "graph \<Rightarrow> (int \<times> int) list" where
  "edges_nx g = edges_from [] g"

section \<open>The edge table of graph\_data.db\<close>

text \<open>
  The table \<^verbatim>\<open>edges(id, source, target)\<close> is a list of rows in \<^verbatim>\<open>id\<close> order; the
  autoincremented \<^verbatim>\<open>id\<close> is never read back and is left out. The columns are declared
  \<^verbatim>\<open>INTEGER\<close> and \<^verbatim>\<open>save_edge\<close> is only ever called with Python ints, so a row is a pair
  of integers; on such rows the \<^verbatim>\<open>int(...)\<close> calls of \<^verbatim>\<open>load_from_db\<close> cannot raise.
\<close>

type_synonym edge_table = "(int \<times> int) list"

text \<open>
  The integers that the sqlite3 binding accepts as a statement parameter: signed 64 bit.
  A Python int outside that range makes \<^verbatim>\<open>execute\<close> raise \<^verbatim>\<open>OverflowError\<close>; the statement
  does not run and the table stays as it was. \<^verbatim>\<open>save_edge\<close> and \<^verbatim>\<open>delete_edge\<close> do not
  catch it, so they return \<open>None\<close> for the exception and the new table otherwise.
\<close>

definition sqlite_integer :: "int \<Rightarrow> bool" where
  "sqlite_integer n \<longleftrightarrow> - (2 ^ 63) \<le> n \<and> n \<le> 2 ^ 63 - 1"

definition save_edge :: "int \<Rightarrow> int \<Rightarrow> edge_table \<Rightarrow> edge_table option" where
  "save_edge u v tbl =
     (if sqlite_integer u \<and> sqlite_integer v then Some (tbl @ [(u, v)]) else None)"

definition delete_edge :: "int \<Rightarrow> int \<Rightarrow> edge_table \<Rightarrow> edge_table option" where
  "delete_edge u v tbl =
     (if sqlite_integer u \<and> sqlite_integer v
      then Some (filter (\<lambda>(source, target).
                   \<not> ((source = u \<and> target = v) \<or> (source = v \<and> target = u))) tbl)
      else None)"

definition load_edges :: "edge_table \<Rightarrow> (int \<times> int) list" where
  "load_edges tbl = tbl"

section \<open>GraphApp\<close>

text \<open>
  The state of the application: the graph, the node-id allocator, the edge table on
  disk, and the \<^verbatim>\<open>on_complete\<close> callbacks of the edge animations that have been started
  and have not finished yet. Widgets, layout and drawing are not modelled.
\<close>

record app =
  G :: graph
  next_node_id :: int
  edges_table :: edge_table
  animations :: "(int \<times> int) list"

text \<open>What a method tells the user: the message box it opens or the line it logs.\<close>

datatype report =
    Silent
  | Error_select_two_nodes
  | Error_cannot_connect_to_itself
  | Info_edge_already_exists int int
  | Error_need_two_nodes
  | Error_no_edges_to_remove
  | Error_select_an_edge
  | Error_failed_to_parse
  | Log_added_node int
  | Log_added_edge int int
  | Log_removed_edge int int
  | Log_loaded nat
  | Log_reset
  | Log_lemma_verified
  | Log_lemma_failed
  | Log_euler_circuit
  | Log_euler_path
  | Log_no_euler nat
  | Unhandled_NetworkXError
  | Unhandled_OverflowError

definition add_node :: "app \<Rightarrow> report \<times> app" where
  "add_node s =
     (let node_id = next_node_id s
      in (Log_added_node node_id,
          s\<lparr>G := add_node_nx node_id (G s),
            next_node_id := max (next_node_id s) (node_id + 1)\<rparr>))"

text \<open>
  \<^verbatim>\<open>animate_edge\<close> draws its first frame at once and every further one from a timer, so
  \<^verbatim>\<open>on_complete\<close> runs in a later event; until then the callback waits in \<open>animations\<close>.
\<close>

definition animate_edge :: "int \<Rightarrow> int \<Rightarrow> app \<Rightarrow> app" where
  "animate_edge u v s = s\<lparr>animations := animations s @ [(u, v)]\<rparr>"

text \<open>
  The two arguments are the contents of the From and To fields after \<^verbatim>\<open>int(...)\<close>;
  \<open>None\<close> stands for a field on which \<^verbatim>\<open>int\<close> raises.
\<close>

definition add_edge_from_select :: "int option \<Rightarrow> int option \<Rightarrow> app \<Rightarrow> report \<times> app" where
  "add_edge_from_select src tgt s =
     (case (src, tgt) of
        (Some u, Some v) \<Rightarrow>
          if u = v then (Error_cannot_connect_to_itself, s)
          else if has_edge (G s) u v then (Info_edge_already_exists u v, s)
          else (Silent, animate_edge u v s)
      | _ \<Rightarrow> (Error_select_two_nodes, s))"

text \<open>
  \<^verbatim>\<open>_finalize_add_edge\<close> changes the graph first and saves second: when \<^verbatim>\<open>save_edge\<close>
  raises, the edge is in the graph, no row is written, and the handler stops before its
  log line.
\<close>

definition finalize_add_edge :: "int \<Rightarrow> int \<Rightarrow> app \<Rightarrow> report \<times> app" where
  "finalize_add_edge u v s =
     (if \<not> has_edge (G s) u v
      then (case save_edge u v (edges_table s) of
              None \<Rightarrow> (Unhandled_OverflowError, s\<lparr>G := add_edge_nx u v (G s)\<rparr>)
            | Some tbl \<Rightarrow>
                (Log_added_edge u v, s\<lparr>G := add_edge_nx u v (G s), edges_table := tbl\<rparr>))
      else (Silent, s))"

text \<open>The \<open>i\<close>-th animation in flight draws its last frame and calls \<^verbatim>\<open>on_complete\<close>.\<close>

definition animation_complete :: "nat \<Rightarrow> app \<Rightarrow> report \<times> app" where
  "animation_complete i s =
     (if i < length (animations s)
      then (case animations s ! i of
              (u, v) \<Rightarrow>
                finalize_add_edge u v
                  (s\<lparr>animations := take i (animations s) @ drop (Suc i) (animations s)\<rparr>))
      else (Silent, s))"

text \<open>
  The legacy \<^verbatim>\<open>add_edge\<close> draws two nodes with \<^verbatim>\<open>random.sample\<close>; the draw is given as two
  positions \<open>i\<close>, \<open>j\<close> in the node list, and a pair of positions that \<^verbatim>\<open>random.sample\<close>
  cannot return does nothing.
\<close>

definition add_edge :: "nat \<Rightarrow> nat \<Rightarrow> app \<Rightarrow> report \<times> app" where
  "add_edge i j s =
     (let nodes = nodes_nx (G s) in
      if length nodes < 2 then (Error_need_two_nodes, s)
      else if i < length nodes \<and> j < length nodes \<and> i \<noteq> j then
        (let u = nodes ! i; v = nodes ! j in
         if has_edge (G s) u v then (Info_edge_already_exists u v, s)
         else (Silent, animate_edge u v s))
      else (Silent, s))"

text \<open>
  The legacy \<^verbatim>\<open>remove_edge\<close> draws one edge with \<^verbatim>\<open>random.choice\<close>, given as a position in
  the edge list (a position outside the list is no draw and does nothing), and removes
  it without asking \<^verbatim>\<open>has_edge\<close> first.
\<close>

definition remove_edge :: "nat \<Rightarrow> app \<Rightarrow> report \<times> app" where
  "remove_edge i s =
     (let es = edges_nx (G s) in
      if es = [] then (Error_no_edges_to_remove, s)
      else if i < length es then
        (case es ! i of
           (u, v) \<Rightarrow>
             (case remove_edge_nx u v (G s) of
                Raised g' \<Rightarrow> (Unhandled_NetworkXError, s\<lparr>G := g'\<rparr>)
              | Done g' \<Rightarrow>
                  (case delete_edge u v (edges_table s) of
                     None \<Rightarrow> (Unhandled_OverflowError, s\<lparr>G := g'\<rparr>)
                   | Some tbl \<Rightarrow> (Log_removed_edge u v, s\<lparr>G := g', edges_table := tbl\<rparr>))))
      else (Silent, s))"

text \<open>
  What \<^verbatim>\<open>remove_selected_edge\<close> finds in the edge list box: nothing selected, a line whose
  two parts \<^verbatim>\<open>int\<close> cannot read, or a line read as the pair \<open>(u, v)\<close>. The graph is
  changed before \<^verbatim>\<open>delete_edge\<close> is called, and the log line comes after it.
\<close>

datatype selection = Nothing_selected | Unreadable | Selected int int

definition remove_selected_edge :: "selection \<Rightarrow> app \<Rightarrow> report \<times> app" where
  "remove_selected_edge sel s =
     (case sel of
        Nothing_selected \<Rightarrow> (Error_select_an_edge, s)
      | Unreadable \<Rightarrow> (Error_failed_to_parse, s)
      | Selected u v \<Rightarrow>
          (case (if has_edge (G s) u v then remove_edge_nx u v (G s) else Done (G s)) of
             Raised g' \<Rightarrow> (Unhandled_NetworkXError, s\<lparr>G := g'\<rparr>)
           | Done g' \<Rightarrow>
               (case delete_edge u v (edges_table s) of
                  None \<Rightarrow> (Unhandled_OverflowError, s\<lparr>G := g'\<rparr>)
                | Some tbl \<Rightarrow> (Log_removed_edge u v, s\<lparr>G := g', edges_table := tbl\<rparr>))))"

text \<open>What \<^verbatim>\<open>verify_lemma\<close> writes into the verification panel.\<close>

record verification =
  degrees :: "nat list"
  degree_sum :: nat
  edge_twice :: nat
  verified :: bool

definition verify_lemma :: "graph \<Rightarrow> verification" where
  "verify_lemma g =
     (let degs = map snd (degree_nx g);
          dsum = sum_list degs;
          twice = 2 * number_of_edges g
      in \<lparr>degrees = degs, degree_sum = dsum, edge_twice = twice, verified = (dsum = twice)\<rparr>)"

text \<open>What \<^verbatim>\<open>euler_path_check\<close> finds.\<close>

datatype euler = Euler_circuit | Euler_path | No_euler nat

definition odd_degree_nodes :: "graph \<Rightarrow> int list" where
  "odd_degree_nodes g = map fst (filter (\<lambda>(n, d). d mod 2 \<noteq> 0) (degree_nx g))"

definition euler_path_check :: "graph \<Rightarrow> euler" where
  "euler_path_check g =
     (if length (odd_degree_nodes g) = 0 then Euler_circuit
      else if length (odd_degree_nodes g) = 2 then Euler_path
      else No_euler (length (odd_degree_nodes g)))"

text \<open>
  \<^verbatim>\<open>load_from_db\<close>: every row becomes an edge, with no further check, and the allocator
  restarts above the largest node id seen.
\<close>

definition load_from_db :: "app \<Rightarrow> report \<times> app" where
  "load_from_db s =
     (let edges = load_edges (edges_table s);
          g = fold (\<lambda>(u, v). add_edge_nx u v) edges (G s);
          nodes = concat (map (\<lambda>(u, v). [u, v]) edges)
      in (Log_loaded (number_of_edges g),
          s\<lparr>G := g,
            next_node_id := (if nodes \<noteq> [] then Max (set nodes) + 1 else 1)\<rparr>))"

definition reset_graph :: "app \<Rightarrow> report \<times> app" where
  "reset_graph s = (Log_reset, s\<lparr>edges_table := [], G := [], next_node_id := 1\<rparr>)"

text \<open>What the edge list box and the node label show after \<^verbatim>\<open>refresh_graph\<close>.\<close>

definition edge_list :: "graph \<Rightarrow> (int \<times> int) list" where
  "edge_list g = sort (edges_nx g)"

definition nodes_display :: "graph \<Rightarrow> int list" where
  "nodes_display g = sort (nodes_nx g)"

section \<open>Sessions\<close>

text \<open>
  Starting the program on an edge table: \<^verbatim>\<open>GraphApp.__init__\<close> makes an empty graph with
  allocator 1 and calls \<^verbatim>\<open>load_from_db\<close>. The very first start finds the empty table that
  \<^verbatim>\<open>init_db\<close> has just created.
\<close>

definition startup :: "edge_table \<Rightarrow> app" where
  "startup tbl =
     snd (load_from_db \<lparr>G = [], next_node_id = 1, edges_table = tbl, animations = []\<rparr>)"

definition first_start :: app where
  "first_start = startup []"

text \<open>
  Everything that can happen to a running application: one of the handlers runs, an
  animation finishes, or the program is closed and started again on the table it left.
  The Save Graph button only writes a snapshot file that the program never reads back;
  it is not an event of the model. Here a removal may come with any selection; the
  section on the edge list box keeps to the selections that the box can hand over.
\<close>

datatype event =
    Add_node
  | Add_edge_from_select "int option" "int option"
  | Animation_complete nat
  | Remove_selected_edge selection
  | Verify_lemma
  | Euler_path_check
  | Reset_graph
  | Add_edge nat nat
  | Remove_edge nat
  | Restart

fun handle :: "event \<Rightarrow> app \<Rightarrow> report \<times> app" where
  "handle Add_node s = add_node s"
| "handle (Add_edge_from_select src tgt) s = add_edge_from_select src tgt s"
| "handle (Animation_complete i) s = animation_complete i s"
| "handle (Remove_selected_edge sel) s = remove_selected_edge sel s"
| "handle Verify_lemma s =
     ((if verified (verify_lemma (G s)) then Log_lemma_verified else Log_lemma_failed), s)"
| "handle Euler_path_check s =
     ((case euler_path_check (G s) of
         Euler_circuit \<Rightarrow> Log_euler_circuit
       | Euler_path \<Rightarrow> Log_euler_path
       | No_euler k \<Rightarrow> Log_no_euler k), s)"
| "handle Reset_graph s = reset_graph s"
| "handle (Add_edge i j) s = add_edge i j s"
| "handle (Remove_edge i) s = remove_edge i s"
| "handle Restart s =
     (Log_loaded (number_of_edges (G (startup (edges_table s)))), startup (edges_table s))"

definition run :: "event list \<Rightarrow> app \<Rightarrow> app" where
  "run evs s = fold (\<lambda>ev s. snd (handle ev s)) evs s"

section \<open>The edge list box\<close>








section \<open>Fixtures and invariants\<close>

text \<open>The graph obtained by calling \<^verbatim>\<open>add_edge\<close> for each pair in turn, from empty.\<close>

definition graph_of :: "(int \<times> int) list \<Rightarrow> graph" where
  "graph_of es = fold (\<lambda>(u, v). add_edge_nx u v) es []"

definition triangle :: graph where
  "triangle = graph_of [(1, 2), (2, 3), (3, 1)]"

definition path_1_2_3 :: graph where
  "path_1_2_3 = graph_of [(1, 2), (2, 3)]"

definition star_3_leaves :: graph where
  "star_3_leaves = graph_of [(1, 2), (1, 3), (1, 4)]"

definition two_triangles :: graph where
  "two_triangles = graph_of [(1, 2), (2, 3), (3, 1), (4, 5), (5, 6), (6, 4)]"

text \<open>
  Saving a list of pairs with one \<^verbatim>\<open>save_edge\<close> call after the other, as a test of the
  round trip does; the first \<^verbatim>\<open>OverflowError\<close> ends it.
\<close>

fun save_edges :: "(int \<times> int) list \<Rightarrow> edge_table \<Rightarrow> edge_table option" where
  "save_edges [] tbl = Some tbl"
| "save_edges ((u, v) # es) tbl =
     (case save_edge u v tbl of None \<Rightarrow> None | Some tbl' \<Rightarrow> save_edges es tbl')"

text \<open>An edge without its orientation: the smaller endpoint first.\<close>

definition unordered :: "int \<times> int \<Rightarrow> int \<times> int" where
  "unordered e = (min (fst e) (snd e), max (fst e) (snd e))"

text \<open>
  The association list is a dictionary of dictionaries (no key occurs twice) and the
  adjacency is symmetric: whoever is listed as a neighbour lists the node back.
\<close>

definition well_formed :: "graph \<Rightarrow> bool" where
  "well_formed g \<longleftrightarrow>
     distinct (nodes_nx g) \<and>
     (\<forall>(n, nbrs) \<in> set g. distinct nbrs \<and> (\<forall>m \<in> set nbrs. has_edge g m n))"

text \<open>
  The same for the rest of the node list once the nodes in \<open>seen\<close> have been visited: a
  neighbour is either visited already or a later node that lists the node back.
\<close>

definition linked :: "int list \<Rightarrow> graph \<Rightarrow> bool" where
  "linked seen g \<longleftrightarrow>
     distinct (map fst g) \<and> set seen \<inter> set (map fst g) = {} \<and>
     (\<forall>(n, nbrs) \<in> set g. distinct nbrs \<and>
        (\<forall>m \<in> set nbrs. m \<in> set seen \<or> (\<exists>nb. (m, nb) \<in> set g \<and> n \<in> set nb)))"

text \<open>
  What every state of a session satisfies: the graph is well formed, and neither the
  graph nor the table nor an animation in flight joins a node to itself.
\<close>

definition consistent :: "app \<Rightarrow> bool" where
  "consistent s \<longleftrightarrow>
     well_formed (G s) \<and>
     (\<forall>n. \<not> has_edge (G s) n n) \<and>
     (\<forall>(u, v) \<in> set (edges_table s). u \<noteq> v) \<and>
     (\<forall>(u, v) \<in> set (animations s). u \<noteq> v)"


text \<open>
  The degree sum with the nodes in \<open>seen\<close> taken out of every neighbour list; with nothing
  taken out it is the sum of \<^verbatim>\<open>G.degree()\<close>.
\<close>

definition degree_sum_from :: "int list \<Rightarrow> graph \<Rightarrow> nat" where
  "degree_sum_from seen g =
     (\<Sum>(n, nbrs)\<leftarrow>g. length (filter (\<lambda>m. m \<notin> set seen) nbrs) + (if n \<in> set nbrs then 1 else 0))"

section \<open>The container operations\<close>

lemma map_of_on_adj:
  "map_of (on_adj u f g) k = (if k = u then map_option f (map_of g k) else map_of g k)"
  by (induction g) (auto simp: on_adj_def)

lemma nodes_on_adj [simp]: "nodes_nx (on_adj u f g) = nodes_nx g"
  by (induction g) (auto simp: on_adj_def nodes_nx_def)

lemma map_of_add_node_nx:
  "map_of (add_node_nx n g) k = (if k = n \<and> map_of g n = None then Some [] else map_of g k)"
proof (cases "map_of g n")
  case None
  then have "n \<notin> set (map fst g)" by (simp add: map_of_eq_None_iff)
  then show ?thesis using None
    by (auto simp: add_node_nx_def nodes_nx_def map_add_def split: option.splits)
next
  case (Some a)
  then have "n \<in> set (map fst g)" by (metis map_of_eq_None_iff option.distinct(1) set_map)
  then show ?thesis using Some by (simp add: add_node_nx_def nodes_nx_def)
qed

lemma set_put_key [simp]: "set (put_key k ks) = insert k (set ks)"
  by (auto simp: put_key_def)

lemma distinct_put_key [simp]: "distinct ks \<Longrightarrow> distinct (put_key k ks)"
  by (auto simp: put_key_def)

lemma has_edge_add_edge_nx:
  "has_edge (add_edge_nx u v g) a b \<longleftrightarrow> has_edge g a b \<or> (a = u \<and> b = v) \<or> (a = v \<and> b = u)"
  by (auto simp: has_edge_def add_edge_nx_def map_of_on_adj map_of_add_node_nx split: option.splits)

lemma has_edge_add_node_nx [simp]: "has_edge (add_node_nx n g) a b = has_edge g a b"
  by (auto simp: has_edge_def map_of_add_node_nx split: option.splits)

lemma set_nodes_add_node_nx [simp]: "set (nodes_nx (add_node_nx n g)) = insert n (set (nodes_nx g))"
  by (auto simp: add_node_nx_def nodes_nx_def)

lemma distinct_nodes_add_node_nx [simp]:
  "distinct (nodes_nx g) \<Longrightarrow> distinct (nodes_nx (add_node_nx n g))"
  by (auto simp: add_node_nx_def nodes_nx_def)

lemma nodes_add_edge_nx: "nodes_nx (add_edge_nx u v g) = nodes_nx (add_node_nx v (add_node_nx u g))"
  by (simp add: add_edge_nx_def)


lemma ball_alist:
  "distinct (map fst g) \<Longrightarrow>
     (\<forall>(n, nbrs) \<in> set g. P n nbrs) \<longleftrightarrow> (\<forall>n nbrs. map_of g n = Some nbrs \<longrightarrow> P n nbrs)"
  by auto

lemma well_formed_iff:
  "well_formed g \<longleftrightarrow>
     distinct (nodes_nx g) \<and>
     (\<forall>n nbrs. map_of g n = Some nbrs \<longrightarrow> distinct nbrs \<and> (\<forall>m \<in> set nbrs. has_edge g m n))"
  unfolding well_formed_def nodes_nx_def
  using ball_alist[of g "\<lambda>n nbrs. distinct nbrs \<and> (\<forall>m \<in> set nbrs. has_edge g m n)"]
  by blast

lemma has_edge_iff: "has_edge g n m \<longleftrightarrow> (\<exists>nbrs. map_of g n = Some nbrs \<and> m \<in> set nbrs)"
  by (simp add: has_edge_def split: option.splits)

lemma well_formed_sym:
  "well_formed g \<longleftrightarrow>
     distinct (nodes_nx g) \<and>
     (\<forall>n nbrs. map_of g n = Some nbrs \<longrightarrow> distinct nbrs) \<and>
     (\<forall>n m. has_edge g n m \<longrightarrow> has_edge g m n)"
proof -
  have "(\<forall>n nbrs. map_of g n = Some nbrs \<longrightarrow> (\<forall>m \<in> set nbrs. has_edge g m n))
        \<longleftrightarrow> (\<forall>n m. has_edge g n m \<longrightarrow> has_edge g m n)"
    by (metis has_edge_iff)
  then show ?thesis unfolding well_formed_iff by blast
qed

lemma well_formed_empty [simp]: "well_formed []"
  by (simp add: well_formed_def nodes_nx_def)

lemma distinct_nbrs_on_adj:
  assumes "\<forall>n nbrs. map_of g n = Some nbrs \<longrightarrow> distinct nbrs" "\<And>ks. distinct ks \<Longrightarrow> distinct (f ks)"
  shows "\<forall>n nbrs. map_of (on_adj u f g) n = Some nbrs \<longrightarrow> distinct nbrs"
proof (intro allI impI)
  fix n nbrs assume a: "map_of (on_adj u f g) n = Some nbrs"
  show "distinct nbrs"
  proof (cases "n = u")
    case True
    with a obtain ks where "map_of g n = Some ks" "nbrs = f ks"
      by (auto simp: map_of_on_adj)
    then show ?thesis using assms by blast
  next
    case False
    with a have "map_of g n = Some nbrs" by (simp add: map_of_on_adj)
    then show ?thesis using assms(1) by blast
  qed
qed

lemma distinct_nbrs_add_node_nx:
  assumes "\<forall>n nbrs. map_of g n = Some nbrs \<longrightarrow> distinct nbrs"
  shows "\<forall>n nbrs. map_of (add_node_nx k g) n = Some nbrs \<longrightarrow> distinct nbrs"
proof (intro allI impI)
  fix n nbrs assume a: "map_of (add_node_nx k g) n = Some nbrs"
  show "distinct nbrs"
  proof (cases "n = k \<and> map_of g k = None")
    case True
    with a have "nbrs = []" by (simp add: map_of_add_node_nx)
    then show ?thesis by simp
  next
    case False
    with a have "map_of g n = Some nbrs" by (simp add: map_of_add_node_nx split: if_splits)
    then show ?thesis using assms by blast
  qed
qed

lemma well_formed_add_node_nx:
  assumes "well_formed g" shows "well_formed (add_node_nx n g)"
proof -
  have d: "distinct (nodes_nx g)" and n: "\<forall>n nbrs. map_of g n = Some nbrs \<longrightarrow> distinct nbrs"
    and s: "\<forall>n m. has_edge g n m \<longrightarrow> has_edge g m n"
    using assms unfolding well_formed_sym by blast+
  have d': "distinct (nodes_nx (add_node_nx n g))" using d by simp
  have n': "\<forall>k nbrs. map_of (add_node_nx n g) k = Some nbrs \<longrightarrow> distinct nbrs"
    by (rule distinct_nbrs_add_node_nx[OF n])
  have s': "\<forall>k m. has_edge (add_node_nx n g) k m \<longrightarrow> has_edge (add_node_nx n g) m k"
    using s by simp
  from d' n' s' show ?thesis unfolding well_formed_sym by blast
qed

lemma well_formed_add_edge_nx:
  assumes "well_formed g" shows "well_formed (add_edge_nx u v g)"
proof -
  have d0: "distinct (nodes_nx g)" and n0: "\<forall>n nbrs. map_of g n = Some nbrs \<longrightarrow> distinct nbrs"
    and s0: "\<forall>n m. has_edge g n m \<longrightarrow> has_edge g m n"
    using assms unfolding well_formed_sym by blast+
  have d: "distinct (nodes_nx (add_edge_nx u v g))"
    using d0 by (simp add: nodes_add_edge_nx)
  let ?g1 = "add_node_nx u g"
  let ?g2 = "add_node_nx v ?g1"
  let ?g3 = "on_adj u (put_key v) ?g2"
  have n1: "\<forall>n nbrs. map_of ?g1 n = Some nbrs \<longrightarrow> distinct nbrs"
    by (rule distinct_nbrs_add_node_nx[OF n0])
  have n2: "\<forall>n nbrs. map_of ?g2 n = Some nbrs \<longrightarrow> distinct nbrs"
    by (rule distinct_nbrs_add_node_nx[OF n1])
  have n3: "\<forall>n nbrs. map_of ?g3 n = Some nbrs \<longrightarrow> distinct nbrs"
    by (rule distinct_nbrs_on_adj[OF n2]) simp
  have n: "\<forall>n nbrs. map_of (add_edge_nx u v g) n = Some nbrs \<longrightarrow> distinct nbrs"
    unfolding add_edge_nx_def by (rule distinct_nbrs_on_adj[OF n3]) simp
  have s: "\<forall>n m. has_edge (add_edge_nx u v g) n m \<longrightarrow> has_edge (add_edge_nx u v g) m n"
    using s0 unfolding has_edge_add_edge_nx by blast
  from d n s show ?thesis unfolding well_formed_sym by blast
qed

lemma well_formed_graph_fold:
  "well_formed g \<Longrightarrow> well_formed (fold (\<lambda>(u, v). add_edge_nx u v) es g)"
  by (induction es arbitrary: g) (simp_all add: well_formed_add_edge_nx split_def)

lemma has_edge_fold:
  "has_edge (fold (\<lambda>(u, v). add_edge_nx u v) es g) a b \<longleftrightarrow>
     has_edge g a b \<or> (a, b) \<in> set es \<or> (b, a) \<in> set es"
proof (induction es arbitrary: g)
  case Nil
  then show ?case by simp
next
  case (Cons e es)
  obtain u v where e: "e = (u, v)" by (cases e)
  show ?case unfolding e by (simp add: Cons.IH has_edge_add_edge_nx) blast
qed

lemma set_nodes_fold:
  "set (nodes_nx (fold (\<lambda>(u, v). add_edge_nx u v) es g)) = set (nodes_nx g) \<union> fst ` set es \<union> snd ` set es"
proof (induction es arbitrary: g)
  case Nil
  then show ?case by simp
next
  case (Cons e es)
  obtain u v where e: "e = (u, v)" by (cases e)
  show ?case unfolding e by (auto simp: Cons.IH nodes_add_edge_nx)
qed


lemma has_edge_on_adj_remove1:
  assumes "\<forall>n nbrs. map_of g n = Some nbrs \<longrightarrow> distinct nbrs"
  shows "has_edge (on_adj u (remove1 v) g) a b \<longleftrightarrow> has_edge g a b \<and> \<not> (a = u \<and> b = v)"
proof (cases "map_of g a")
  case None
  then show ?thesis by (auto simp: has_edge_iff map_of_on_adj)
next
  case (Some ks)
  then have "distinct ks" using assms by blast
  then show ?thesis using Some by (auto simp: has_edge_iff map_of_on_adj)
qed

lemma remove_edge_nx_done:
  assumes wf: "well_formed g" and e: "has_edge g u v"
  shows "\<exists>g'. remove_edge_nx u v g = Done g' \<and> well_formed g' \<and> nodes_nx g' = nodes_nx g \<and>
           (\<forall>a b. has_edge g' a b \<longleftrightarrow> has_edge g a b \<and> \<not> (a = u \<and> b = v) \<and> \<not> (a = v \<and> b = u))"
proof -
  let ?g1 = "on_adj u (remove1 v) g"
  let ?g2 = "on_adj v (remove1 u) ?g1"
  have dn: "\<forall>n nbrs. map_of g n = Some nbrs \<longrightarrow> distinct nbrs"
    and sym: "\<forall>n m. has_edge g n m \<longrightarrow> has_edge g m n"
    and dk: "distinct (nodes_nx g)"
    using wf unfolding well_formed_sym by blast+
  have dn1: "\<forall>n nbrs. map_of ?g1 n = Some nbrs \<longrightarrow> distinct nbrs"
    by (rule distinct_nbrs_on_adj[OF dn]) simp
  have dn2: "\<forall>n nbrs. map_of ?g2 n = Some nbrs \<longrightarrow> distinct nbrs"
    by (rule distinct_nbrs_on_adj[OF dn1]) simp
  have h1: "has_edge ?g1 a b \<longleftrightarrow> has_edge g a b \<and> \<not> (a = u \<and> b = v)" for a b
    by (rule has_edge_on_adj_remove1[OF dn])
  have h2: "has_edge ?g2 a b \<longleftrightarrow> has_edge g a b \<and> \<not> (a = u \<and> b = v) \<and> \<not> (a = v \<and> b = u)" for a b
    unfolding has_edge_on_adj_remove1[OF dn1] h1 by blast
  show ?thesis
  proof (cases "u = v")
    case True
    have r: "remove_edge_nx u v g = Done ?g1" using e True by (simp add: remove_edge_nx_def)
    have s1: "\<forall>n m. has_edge ?g1 n m \<longrightarrow> has_edge ?g1 m n"
      unfolding h1 using sym True by blast
    have k1: "distinct (nodes_nx ?g1)" using dk by simp
    have w: "well_formed ?g1" unfolding well_formed_sym using k1 dn1 s1 by blast
    have c: "\<forall>a b. has_edge ?g1 a b \<longleftrightarrow> has_edge g a b \<and> \<not> (a = u \<and> b = v) \<and> \<not> (a = v \<and> b = u)"
      unfolding h1 using True by blast
    have k: "nodes_nx ?g1 = nodes_nx g" by simp
    from r w k c show ?thesis by blast
  next
    case False
    have "has_edge ?g1 v u" unfolding h1 using e sym False by blast
    then have r: "remove_edge_nx u v g = Done ?g2"
      using e False by (simp add: remove_edge_nx_def Let_def)
    have s2: "\<forall>n m. has_edge ?g2 n m \<longrightarrow> has_edge ?g2 m n"
      unfolding h2 using sym by blast
    have k2: "distinct (nodes_nx ?g2)" using dk by simp
    have w: "well_formed ?g2" unfolding well_formed_sym using k2 dn2 s2 by blast
    have c: "\<forall>a b. has_edge ?g2 a b \<longleftrightarrow> has_edge g a b \<and> \<not> (a = u \<and> b = v) \<and> \<not> (a = v \<and> b = u)"
      using h2 by blast
    have k: "nodes_nx ?g2 = nodes_nx g" by simp
    from r w k c show ?thesis by blast
  qed
qed

section \<open>What G.edges() lists\<close>

lemma linked_Cons:
  assumes "linked seen ((n0, nbrs0) # g)" shows "linked (n0 # seen) g"
proof -
  have d: "distinct (map fst g)" and n0: "n0 \<notin> fst ` set g" and s: "set seen \<inter> set (map fst g) = {}"
    using assms by (auto simp: linked_def)
  have "distinct nbrs \<and> (\<forall>m \<in> set nbrs. m \<in> set (n0 # seen) \<or> (\<exists>nb. (m, nb) \<in> set g \<and> n \<in> set nb))"
    if "(n, nbrs) \<in> set g" for n nbrs
  proof -
    from assms that have a: "distinct nbrs"
      and b: "\<forall>m \<in> set nbrs. m \<in> set seen \<or> (\<exists>nb. (m, nb) \<in> set ((n0, nbrs0) # g) \<and> n \<in> set nb)"
      unfolding linked_def by fastforce+
    from b have "\<forall>m \<in> set nbrs. m \<in> set (n0 # seen) \<or> (\<exists>nb. (m, nb) \<in> set g \<and> n \<in> set nb)"
      by auto
    with a show ?thesis by blast
  qed
  then have k: "\<forall>(n, nbrs) \<in> set g. distinct nbrs \<and>
      (\<forall>m \<in> set nbrs. m \<in> set (n0 # seen) \<or> (\<exists>nb. (m, nb) \<in> set g \<and> n \<in> set nb))"
    by blast
  have "set (n0 # seen) \<inter> set (map fst g) = {}" using n0 s by auto
  with d k show ?thesis unfolding linked_def by blast
qed

lemma linked_head:
  assumes "linked seen ((n0, nbrs0) # g)"
  shows "distinct nbrs0" "n0 \<notin> set seen" "n0 \<notin> fst ` set g"
    and "\<And>m. m \<in> set nbrs0 \<Longrightarrow> m \<notin> set seen \<Longrightarrow> m \<noteq> n0 \<Longrightarrow> \<exists>nb. (m, nb) \<in> set g \<and> n0 \<in> set nb"
    and "\<And>n nb. (n, nb) \<in> set g \<Longrightarrow> n0 \<in> set nb \<Longrightarrow> n \<in> set nbrs0 \<and> n \<notin> set seen \<and> n \<noteq> n0"
proof -
  show a: "distinct nbrs0" and b: "n0 \<notin> set seen" and c: "n0 \<notin> fst ` set g"
    using assms by (auto simp: linked_def)
  show "\<exists>nb. (m, nb) \<in> set g \<and> n0 \<in> set nb" if "m \<in> set nbrs0" "m \<notin> set seen" "m \<noteq> n0" for m
  proof -
    from assms have "\<forall>m \<in> set nbrs0. m \<in> set seen \<or> (\<exists>nb. (m, nb) \<in> set ((n0, nbrs0) # g) \<and> n0 \<in> set nb)"
      unfolding linked_def by fastforce
    with that show ?thesis by auto
  qed
  show "n \<in> set nbrs0 \<and> n \<notin> set seen \<and> n \<noteq> n0" if "(n, nb) \<in> set g" "n0 \<in> set nb" for n nb
  proof -
    from assms that(1) have "\<forall>m \<in> set nb. m \<in> set seen \<or> (\<exists>nb'. (m, nb') \<in> set ((n0, nbrs0) # g) \<and> n \<in> set nb')"
      unfolding linked_def by fastforce
    with that(2) b obtain nb' where "(n0, nb') \<in> set ((n0, nbrs0) # g)" "n \<in> set nb'" by blast
    with c have "n \<in> set nbrs0" by force
    moreover have "n \<in> fst ` set g" using that(1) by force
    then have "n \<notin> set seen" "n \<noteq> n0" using assms c by (auto simp: linked_def)
    ultimately show ?thesis by blast
  qed
qed

lemma well_formed_linked: assumes "well_formed g" shows "linked [] g"
proof -
  have d: "distinct (map fst g)" using assms by (simp add: well_formed_def nodes_nx_def)
  have "distinct nbrs \<and> (\<forall>m \<in> set nbrs. \<exists>nb. (m, nb) \<in> set g \<and> n \<in> set nb)"
    if "(n, nbrs) \<in> set g" for n nbrs
  proof -
    from assms that have a: "distinct nbrs" and b: "\<forall>m \<in> set nbrs. has_edge g m n"
      unfolding well_formed_def by fastforce+
    have "\<exists>nb. (m, nb) \<in> set g \<and> n \<in> set nb" if "m \<in> set nbrs" for m
    proof -
      from b that have "has_edge g m n" by blast
      then obtain nb where "map_of g m = Some nb" "n \<in> set nb" unfolding has_edge_iff by blast
      then show ?thesis using map_of_SomeD by fast
    qed
    with a show ?thesis by blast
  qed
  with d show ?thesis unfolding linked_def by auto
qed

lemma edges_from_sound:
  "(a, b) \<in> set (edges_from seen g) \<Longrightarrow> (\<exists>nb. (a, nb) \<in> set g \<and> b \<in> set nb) \<and> b \<notin> set seen"
proof (induction g arbitrary: seen)
  case Nil
  then show ?case by simp
next
  case (Cons x g)
  obtain n0 nbrs0 where x: "x = (n0, nbrs0)" by (cases x)
  from Cons.prems have "(a = n0 \<and> b \<in> set nbrs0 \<and> b \<notin> set seen) \<or> (a, b) \<in> set (edges_from (n0 # seen) g)"
    unfolding x by auto
  then show ?case
  proof
    assume "a = n0 \<and> b \<in> set nbrs0 \<and> b \<notin> set seen"
    then show ?thesis unfolding x by auto
  next
    assume "(a, b) \<in> set (edges_from (n0 # seen) g)"
    from Cons.IH[OF this] show ?thesis by auto
  qed
qed

lemma edges_from_complete:
  "linked seen g \<Longrightarrow> (n, nb) \<in> set g \<Longrightarrow> m \<in> set nb \<Longrightarrow> m \<notin> set seen \<Longrightarrow>
     (n, m) \<in> set (edges_from seen g) \<or> (m, n) \<in> set (edges_from seen g)"
proof (induction g arbitrary: seen)
  case Nil
  then show ?case by simp
next
  case (Cons x g)
  obtain n0 nbrs0 where x: "x = (n0, nbrs0)" by (cases x)
  note l = Cons.prems(1)[unfolded x]
  show ?case
  proof (cases "(n, nb) = (n0, nbrs0)")
    case True
    then show ?thesis using Cons.prems unfolding x by auto
  next
    case False
    then have in_g: "(n, nb) \<in> set g" using Cons.prems(2) unfolding x by auto
    show ?thesis
    proof (cases "m = n0")
      case True
      from linked_head(5)[OF l in_g] Cons.prems(3) True
      have "n \<in> set nbrs0" "n \<notin> set seen" by blast+
      then show ?thesis unfolding x True by auto
    next
      case False
      then have "m \<notin> set (n0 # seen)" using Cons.prems(4) by simp
      from Cons.IH[OF linked_Cons[OF l] in_g Cons.prems(3) this]
      show ?thesis unfolding x by auto
    qed
  qed
qed

lemma distinct_edges_from:
  "linked seen g \<Longrightarrow> distinct (edges_from seen g)"
proof (induction g arbitrary: seen)
  case Nil
  then show ?case by simp
next
  case (Cons x g)
  obtain n0 nbrs0 where x: "x = (n0, nbrs0)" by (cases x)
  note l = Cons.prems(1)[unfolded x]
  have 1: "distinct (map (Pair n0) (filter (\<lambda>nbr. nbr \<notin> set seen) nbrs0))"
    using linked_head(1)[OF l] by (simp add: distinct_map inj_on_def)
  have 2: "distinct (edges_from (n0 # seen) g)" by (rule Cons.IH[OF linked_Cons[OF l]])
  have 3: "e \<notin> set (edges_from (n0 # seen) g)" if "e \<in> set (map (Pair n0) (filter (\<lambda>nbr. nbr \<notin> set seen) nbrs0))" for e
  proof
    assume a: "e \<in> set (edges_from (n0 # seen) g)"
    from that obtain b where e: "e = (n0, b)" by auto
    from edges_from_sound[OF a[unfolded e]] have "n0 \<in> fst ` set g" by force
    with linked_head(3)[OF l] show False by blast
  qed
  from 1 2 3 show ?case unfolding x by auto
qed

lemma edges_from_one_way:
  "distinct (map fst g) \<Longrightarrow> (a, b) \<in> set (edges_from seen g) \<Longrightarrow>
     (b, a) \<in> set (edges_from seen g) \<Longrightarrow> a = b"
proof (induction g arbitrary: seen)
  case Nil
  then show ?case by simp
next
  case (Cons x g)
  obtain n0 nbrs0 where x: "x = (n0, nbrs0)" by (cases x)
  have k: "n0 \<notin> fst ` set g" and d: "distinct (map fst g)" using Cons.prems(1) unfolding x by auto
  have tail: "c \<noteq> n0 \<and> d \<noteq> n0" if "(c, d) \<in> set (edges_from (n0 # seen) g)" for c d
    using edges_from_sound[OF that] k by force
  from Cons.prems(2) have ab: "a = n0 \<or> (a, b) \<in> set (edges_from (n0 # seen) g)" unfolding x by auto
  from Cons.prems(3) have ba: "b = n0 \<or> (b, a) \<in> set (edges_from (n0 # seen) g)" unfolding x by auto
  show ?case
  proof (cases "(a, b) \<in> set (edges_from (n0 # seen) g) \<and> (b, a) \<in> set (edges_from (n0 # seen) g)")
    case True
    then show ?thesis using Cons.IH[OF d] by blast
  next
    case False
    then show ?thesis using ab ba tail by blast
  qed
qed

lemma edges_from_order:
  "linked seen g \<Longrightarrow> (a, b) \<in> set (edges_from seen g) \<Longrightarrow> a \<noteq> b \<Longrightarrow>
     \<exists>pre post. map fst g = pre @ a # post \<and> b \<in> set post"
proof (induction g arbitrary: seen)
  case Nil
  then show ?case by simp
next
  case (Cons x g)
  obtain n0 nbrs0 where x: "x = (n0, nbrs0)" by (cases x)
  note l = Cons.prems(1)[unfolded x]
  from Cons.prems(2) have "(a = n0 \<and> b \<in> set nbrs0 \<and> b \<notin> set seen) \<or> (a, b) \<in> set (edges_from (n0 # seen) g)"
    unfolding x by auto
  then show ?case
  proof
    assume h: "a = n0 \<and> b \<in> set nbrs0 \<and> b \<notin> set seen"
    with Cons.prems(3) have "b \<in> set nbrs0" "b \<notin> set seen" "b \<noteq> n0" by simp_all
    from linked_head(4)[OF l this] obtain nb where "(b, nb) \<in> set g" by blast
    then have "b \<in> set (map fst g)" by force
    moreover have "map fst (x # g) = [] @ a # map fst g" using h unfolding x by simp
    ultimately show ?thesis by blast
  next
    assume "(a, b) \<in> set (edges_from (n0 # seen) g)"
    from Cons.IH[OF linked_Cons[OF l] this Cons.prems(3)]
    obtain pre post where "map fst g = pre @ a # post" "b \<in> set post" by blast
    then have "map fst (x # g) = (n0 # pre) @ a # post" unfolding x by simp
    with \<open>b \<in> set post\<close> show ?thesis by blast
  qed
qed

section \<open>The degree sum counts every listed edge twice\<close>

lemma length_filter_split:
  "distinct xs \<Longrightarrow>
     length (filter P xs) = length (filter (\<lambda>m. P m \<and> m \<noteq> a) xs) + (if a \<in> set xs \<and> P a then 1 else 0)"
  by (induction xs) auto

lemma degree_sum_from_visit:
  assumes "\<forall>(n, nbrs) \<in> set g. distinct nbrs" "n0 \<notin> set seen"
  shows "degree_sum_from seen g =
           degree_sum_from (n0 # seen) g + length (filter (\<lambda>(n, nbrs). n0 \<in> set nbrs) g)"
  using assms(1)
proof (induction g)
  case Nil
  then show ?case by (simp add: degree_sum_from_def)
next
  case (Cons x g)
  obtain n nbrs where x: "x = (n, nbrs)" by (cases x)
  have d: "distinct nbrs" using Cons.prems unfolding x by simp
  have f: "filter (\<lambda>m. m \<notin> set seen \<and> m \<noteq> n0) nbrs = filter (\<lambda>m. m \<notin> set (n0 # seen)) nbrs"
    by (rule filter_cong) auto
  have h: "length (filter (\<lambda>m. m \<notin> set seen) nbrs) =
        length (filter (\<lambda>m. m \<notin> set (n0 # seen)) nbrs) + (if n0 \<in> set nbrs then 1 else 0)"
    using length_filter_split[OF d, of "\<lambda>m. m \<notin> set seen" n0] assms(2) unfolding f by simp
  have ih: "degree_sum_from seen g =
           degree_sum_from (n0 # seen) g + length (filter (\<lambda>(n, nbrs). n0 \<in> set nbrs) g)"
    using Cons by simp
  have 1: "degree_sum_from seen (x # g) =
      length (filter (\<lambda>m. m \<notin> set seen) nbrs) + (if n \<in> set nbrs then 1 else 0) + degree_sum_from seen g"
    by (simp add: degree_sum_from_def x)
  have 2: "degree_sum_from (n0 # seen) (x # g) =
      length (filter (\<lambda>m. m \<notin> set (n0 # seen)) nbrs) + (if n \<in> set nbrs then 1 else 0)
        + degree_sum_from (n0 # seen) g"
    by (simp add: degree_sum_from_def x)
  have 3: "length (filter (\<lambda>(n, nbrs). n0 \<in> set nbrs) (x # g)) =
      (if n0 \<in> set nbrs then 1 else 0) + length (filter (\<lambda>(n, nbrs). n0 \<in> set nbrs) g)"
    by (simp add: x)
  show ?case unfolding 1 2 3 h ih by simp
qed

lemma back_links_count:
  assumes l: "linked seen ((n0, nbrs0) # g)"
  shows "length (filter (\<lambda>(n, nbrs). n0 \<in> set nbrs) g) =
           length (filter (\<lambda>m. m \<notin> set seen \<and> m \<noteq> n0) nbrs0)"
proof -
  have dk: "distinct (map fst g)" using l by (simp add: linked_def)
  have dg: "distinct g" using dk by (simp add: distinct_map)
  have inj: "inj_on fst (set g)" using dk by (simp add: distinct_map)
  define A where "A = set (filter (\<lambda>(n, nbrs). n0 \<in> set nbrs) g)"
  define B where "B = set (filter (\<lambda>m. m \<notin> set seen \<and> m \<noteq> n0) nbrs0)"
  have a: "length (filter (\<lambda>(n, nbrs). n0 \<in> set nbrs) g) = card A"
    unfolding A_def by (rule distinct_card[symmetric]) (rule distinct_filter[OF dg])
  have b: "length (filter (\<lambda>m. m \<notin> set seen \<and> m \<noteq> n0) nbrs0) = card B"
    unfolding B_def by (rule distinct_card[symmetric]) (rule distinct_filter[OF linked_head(1)[OF l]])
  have A_iff: "(m, nb) \<in> A \<longleftrightarrow> (m, nb) \<in> set g \<and> n0 \<in> set nb" for m nb
    unfolding A_def by simp
  have B_iff: "m \<in> B \<longleftrightarrow> m \<in> set nbrs0 \<and> m \<notin> set seen \<and> m \<noteq> n0" for m
    unfolding B_def by simp
  have "fst ` A = B"
  proof (intro set_eqI iffI)
    fix m assume "m \<in> fst ` A"
    then obtain e where e: "e \<in> A" "m = fst e" by blast
    obtain m' nb where "e = (m', nb)" by (cases e)
    with e have "(m, nb) \<in> A" by simp
    then have "(m, nb) \<in> set g" "n0 \<in> set nb" unfolding A_iff by blast+
    from linked_head(5)[OF l this] show "m \<in> B" unfolding B_iff .
  next
    fix m assume "m \<in> B"
    then have "m \<in> set nbrs0" "m \<notin> set seen" "m \<noteq> n0" unfolding B_iff by blast+
    from linked_head(4)[OF l this] obtain nb where "(m, nb) \<in> set g" "n0 \<in> set nb" by blast
    then have "(m, nb) \<in> A" unfolding A_iff by blast
    then show "m \<in> fst ` A" by (rule image_eqI[rotated]) simp
  qed
  moreover have "A \<subseteq> set g" unfolding A_def by simp
  then have "inj_on fst A" using inj by (rule inj_on_subset[rotated])
  then have "card (fst ` A) = card A" by (rule card_image)
  ultimately have "card A = card B" by simp
  with a b show ?thesis by simp
qed

lemma handshake_from:
  "linked seen g \<Longrightarrow> degree_sum_from seen g = 2 * length (edges_from seen g)"
proof (induction g arbitrary: seen)
  case Nil
  then show ?case by (simp add: degree_sum_from_def)
next
  case (Cons x g)
  obtain n0 nbrs0 where x: "x = (n0, nbrs0)" by (cases x)
  note l = Cons.prems[unfolded x]
  have dn: "\<forall>(n, nbrs) \<in> set g. distinct nbrs" using l unfolding linked_def by auto
  have ih: "degree_sum_from (n0 # seen) g = 2 * length (edges_from (n0 # seen) g)"
    by (rule Cons.IH[OF linked_Cons[OF l]])
  have v: "degree_sum_from seen g =
           degree_sum_from (n0 # seen) g + length (filter (\<lambda>(n, nbrs). n0 \<in> set nbrs) g)"
    by (rule degree_sum_from_visit[OF dn linked_head(2)[OF l]])
  have h: "length (filter (\<lambda>m. m \<notin> set seen) nbrs0) =
        length (filter (\<lambda>m. m \<notin> set seen \<and> m \<noteq> n0) nbrs0) + (if n0 \<in> set nbrs0 then 1 else 0)"
    using length_filter_split[OF linked_head(1)[OF l], of "\<lambda>m. m \<notin> set seen" n0] linked_head(2)[OF l]
    by simp
  have 1: "degree_sum_from seen (x # g) =
      length (filter (\<lambda>m. m \<notin> set seen) nbrs0) + (if n0 \<in> set nbrs0 then 1 else 0) + degree_sum_from seen g"
    by (simp add: degree_sum_from_def x)
  have 2: "length (edges_from seen (x # g)) =
      length (filter (\<lambda>m. m \<notin> set seen) nbrs0) + length (edges_from (n0 # seen) g)"
    by (simp add: x)
  show ?case unfolding 1 2 v ih back_links_count[OF l] h by simp
qed

lemma degree_sum_from_Nil: "degree_sum_from [] g = sum_list (map snd (degree_nx g))"
  by (simp add: degree_sum_from_def degree_nx_def comp_def split_def)

lemma handshake:
  assumes "well_formed g"
  shows "sum_list (map snd (degree_nx g)) = 2 * length (edges_nx g)"
  using handshake_from[OF well_formed_linked[OF assms]]
  by (simp add: degree_sum_from_Nil edges_nx_def)

lemma number_of_edges_well_formed:
  "well_formed g \<Longrightarrow> number_of_edges g = length (edges_nx g)"
  by (simp add: number_of_edges_def handshake)

section \<open>What every state of a session satisfies\<close>

lemma edges_nx_sound:
  assumes "well_formed g" "(a, b) \<in> set (edges_nx g)" shows "has_edge g a b"
proof -
  from edges_from_sound[OF assms(2)[unfolded edges_nx_def]]
  obtain nb where nb: "(a, nb) \<in> set g" "b \<in> set nb" by blast
  have "distinct (map fst g)" using assms(1) by (simp add: well_formed_def nodes_nx_def)
  with nb(1) have "map_of g a = Some nb" by simp
  with nb(2) show ?thesis unfolding has_edge_iff by blast
qed

lemma edges_nx_complete:
  assumes "well_formed g" "has_edge g a b"
  shows "(a, b) \<in> set (edges_nx g) \<or> (b, a) \<in> set (edges_nx g)"
proof -
  from assms(2) obtain nb where "map_of g a = Some nb" "b \<in> set nb" unfolding has_edge_iff by blast
  then have "(a, nb) \<in> set g" "b \<in> set nb" "b \<notin> set []" by (auto dest: map_of_SomeD)
  from edges_from_complete[OF well_formed_linked[OF assms(1)] this]
  show ?thesis unfolding edges_nx_def .
qed

lemma distinct_edges_nx: "well_formed g \<Longrightarrow> distinct (edges_nx g)"
  unfolding edges_nx_def by (rule distinct_edges_from[OF well_formed_linked])

lemma edges_nx_one_way:
  assumes "well_formed g" "(a, b) \<in> set (edges_nx g)" "(b, a) \<in> set (edges_nx g)" shows "a = b"
proof -
  have "distinct (map fst g)" using assms(1) by (simp add: well_formed_def nodes_nx_def)
  from edges_from_one_way[OF this assms(2,3)[unfolded edges_nx_def]] show ?thesis .
qed

lemma edges_nx_order:
  assumes "well_formed g" "(a, b) \<in> set (edges_nx g)" "a \<noteq> b"
  shows "\<exists>pre post. nodes_nx g = pre @ a # post \<and> b \<in> set post"
  using edges_from_order[OF well_formed_linked[OF assms(1)] assms(2)[unfolded edges_nx_def] assms(3)]
  unfolding nodes_nx_def .


lemma has_edge_Nil [simp]: "\<not> has_edge [] a b"
  by (simp add: has_edge_def)

lemma save_edge_Some:
  "save_edge u v tbl = Some tbl' \<longleftrightarrow> sqlite_integer u \<and> sqlite_integer v \<and> tbl' = tbl @ [(u, v)]"
  by (auto simp: save_edge_def)

lemma save_edge_None: "save_edge u v tbl = None \<longleftrightarrow> \<not> (sqlite_integer u \<and> sqlite_integer v)"
  by (simp add: save_edge_def)


lemma delete_edge_subset: "delete_edge u v tbl = Some tbl' \<Longrightarrow> set tbl' \<subseteq> set tbl"
  by (auto simp: delete_edge_def split: if_splits)

lemma consistentI:
  assumes "well_formed (G s)"
    and "\<And>n. \<not> has_edge (G s) n n"
    and "\<And>u v. (u, v) \<in> set (edges_table s) \<Longrightarrow> u \<noteq> v"
    and "\<And>u v. (u, v) \<in> set (animations s) \<Longrightarrow> u \<noteq> v"
  shows "consistent s"
  unfolding consistent_def using assms by blast

lemma consistentD:
  assumes "consistent s"
  shows "well_formed (G s)"
    and "\<And>n. \<not> has_edge (G s) n n"
    and "\<And>u v. (u, v) \<in> set (edges_table s) \<Longrightarrow> u \<noteq> v"
    and "\<And>u v. (u, v) \<in> set (animations s) \<Longrightarrow> u \<noteq> v"
  using assms unfolding consistent_def by blast+

lemma consistent_no_self_loop: "consistent s \<Longrightarrow> \<not> has_edge (G s) n n"
  by (rule consistentD(2))

lemma consistent_symmetric:
  assumes "consistent s" shows "has_edge (G s) u v \<longleftrightarrow> has_edge (G s) v u"
  using consistentD(1)[OF assms] unfolding well_formed_sym by blast

lemma consistent_graph:
  assumes "consistent s" "well_formed g'" "\<And>n. \<not> has_edge g' n n"
  shows "consistent (s\<lparr>G := g'\<rparr>)"
proof (rule consistentI)
  note c = consistentD[OF assms(1)]
  show "well_formed (G (s\<lparr>G := g'\<rparr>))" using assms(2) by simp
  show "\<not> has_edge (G (s\<lparr>G := g'\<rparr>)) n n" for n using assms(3) by simp
  show "u \<noteq> v" if "(u, v) \<in> set (edges_table (s\<lparr>G := g'\<rparr>))" for u v using that c(3) by simp
  show "u \<noteq> v" if "(u, v) \<in> set (animations (s\<lparr>G := g'\<rparr>))" for u v using that c(4) by simp
qed

lemma consistent_table:
  assumes "consistent s" "\<And>a b. (a, b) \<in> set tbl \<Longrightarrow> a \<noteq> b"
  shows "consistent (s\<lparr>edges_table := tbl\<rparr>)"
proof (rule consistentI)
  note c = consistentD[OF assms(1)]
  show "well_formed (G (s\<lparr>edges_table := tbl\<rparr>))" using c(1) by simp
  show "\<not> has_edge (G (s\<lparr>edges_table := tbl\<rparr>)) n n" for n using c(2) by simp
  show "u \<noteq> v" if "(u, v) \<in> set (edges_table (s\<lparr>edges_table := tbl\<rparr>))" for u v
    using that assms(2) by simp
  show "u \<noteq> v" if "(u, v) \<in> set (animations (s\<lparr>edges_table := tbl\<rparr>))" for u v
    using that c(4) by simp
qed

lemma consistent_add_node: assumes "consistent s" shows "consistent (snd (add_node s))"
proof -
  note c = consistentD[OF assms]
  have "consistent (s\<lparr>G := add_node_nx (next_node_id s) (G s)\<rparr>)"
    using c(1,2) by (intro consistent_graph[OF assms] well_formed_add_node_nx) simp_all
  then show ?thesis by (simp add: add_node_def Let_def consistent_def)
qed

lemma consistent_animate_edge:
  assumes "consistent s" "u \<noteq> v" shows "consistent (animate_edge u v s)"
proof (rule consistentI)
  note c = consistentD[OF assms(1)]
  show "well_formed (G (animate_edge u v s))" using c(1) by (simp add: animate_edge_def)
  show "\<not> has_edge (G (animate_edge u v s)) n n" for n using c(2) by (simp add: animate_edge_def)
  show "a \<noteq> b" if "(a, b) \<in> set (edges_table (animate_edge u v s))" for a b
    using that c(3) by (simp add: animate_edge_def)
  show "a \<noteq> b" if "(a, b) \<in> set (animations (animate_edge u v s))" for a b
    using that c(4) assms(2) by (auto simp: animate_edge_def)
qed

lemma consistent_add_edge_from_select:
  assumes "consistent s" shows "consistent (snd (add_edge_from_select src tgt s))"
proof (cases "\<exists>u v. src = Some u \<and> tgt = Some v \<and> u \<noteq> v \<and> \<not> has_edge (G s) u v")
  case True
  then obtain u v where "src = Some u" "tgt = Some v" "u \<noteq> v" "\<not> has_edge (G s) u v" by blast
  then show ?thesis using consistent_animate_edge[OF assms, of u v]
    by (simp add: add_edge_from_select_def)
next
  case False
  then have "snd (add_edge_from_select src tgt s) = s"
    by (auto simp: add_edge_from_select_def split: option.splits)
  then show ?thesis using assms by simp
qed

lemma finalize_add_edge_cases:
  "(has_edge (G s) u v \<and> finalize_add_edge u v s = (Silent, s)) \<or>
   (\<not> has_edge (G s) u v \<and> \<not> (sqlite_integer u \<and> sqlite_integer v) \<and>
      finalize_add_edge u v s = (Unhandled_OverflowError, s\<lparr>G := add_edge_nx u v (G s)\<rparr>)) \<or>
   (\<not> has_edge (G s) u v \<and> sqlite_integer u \<and> sqlite_integer v \<and>
      finalize_add_edge u v s =
        (Log_added_edge u v,
         s\<lparr>G := add_edge_nx u v (G s), edges_table := edges_table s @ [(u, v)]\<rparr>))"
  by (simp add: finalize_add_edge_def save_edge_def)


lemma consistent_finalize_add_edge:
  assumes "consistent s" "u \<noteq> v" shows "consistent (snd (finalize_add_edge u v s))"
proof -
  note c = consistentD[OF assms(1)]
  have w: "well_formed (add_edge_nx u v (G s))" by (rule well_formed_add_edge_nx[OF c(1)])
  have n: "\<not> has_edge (add_edge_nx u v (G s)) n n" for n
    using c(2) assms(2) by (simp add: has_edge_add_edge_nx)
  have g: "consistent (s\<lparr>G := add_edge_nx u v (G s)\<rparr>)"
    by (rule consistent_graph[OF assms(1) w n])
  have r: "a \<noteq> b" if "(a, b) \<in> set (edges_table s @ [(u, v)])" for a b
    using that c(3) assms(2) by auto
  have "consistent ((s\<lparr>G := add_edge_nx u v (G s)\<rparr>)\<lparr>edges_table := edges_table s @ [(u, v)]\<rparr>)"
    by (rule consistent_table[OF g]) (rule r)
  then have t: "consistent (s\<lparr>G := add_edge_nx u v (G s), edges_table := edges_table s @ [(u, v)]\<rparr>)"
    by simp
  from finalize_add_edge_cases[of s u v] show ?thesis using assms(1) g t by auto
qed

lemma consistent_animation_complete:
  assumes "consistent s" shows "consistent (snd (animation_complete i s))"
proof (cases "i < length (animations s)")
  case False
  then show ?thesis using assms by (simp add: animation_complete_def)
next
  case True
  obtain u v where uv: "animations s ! i = (u, v)" by (cases "animations s ! i")
  let ?s = "s\<lparr>animations := take i (animations s) @ drop (Suc i) (animations s)\<rparr>"
  note c = consistentD[OF assms]
  have "(u, v) \<in> set (animations s)" using True uv nth_mem by metis
  then have ne: "u \<noteq> v" using c(4) by blast
  have "consistent ?s"
  proof (rule consistentI)
    show "well_formed (G ?s)" using c(1) by simp
    show "\<not> has_edge (G ?s) n n" for n using c(2) by simp
    show "a \<noteq> b" if "(a, b) \<in> set (edges_table ?s)" for a b using that c(3) by simp
    show "a \<noteq> b" if "(a, b) \<in> set (animations ?s)" for a b
    proof -
      from that have "(a, b) \<in> set (take i (animations s)) \<or> (a, b) \<in> set (drop (Suc i) (animations s))"
        by simp
      then have "(a, b) \<in> set (animations s)" by (blast dest: in_set_takeD in_set_dropD)
      then show ?thesis using c(4) by blast
    qed
  qed
  from consistent_finalize_add_edge[OF this ne] show ?thesis
    using True uv by (simp add: animation_complete_def)
qed

text \<open>Taking an edge of a consistent state out of the graph, and then out of the table.\<close>

lemma removal_cases:
  assumes c0: "consistent s" and e: "has_edge (G s) u v"
  shows "\<exists>g'. remove_edge_nx u v (G s) = Done g' \<and> well_formed g' \<and>
           (\<forall>a b. has_edge g' a b \<longleftrightarrow> has_edge (G s) a b \<and> \<not> (a = u \<and> b = v) \<and> \<not> (a = v \<and> b = u)) \<and>
           consistent (s\<lparr>G := g'\<rparr>) \<and>
           (\<forall>tbl. delete_edge u v (edges_table s) = Some tbl \<longrightarrow>
              consistent (s\<lparr>G := g', edges_table := tbl\<rparr>))"
proof -
  note c = consistentD[OF c0]
  from remove_edge_nx_done[OF c(1) e] obtain g' where g':
    "remove_edge_nx u v (G s) = Done g'" "well_formed g'"
    "\<forall>a b. has_edge g' a b \<longleftrightarrow> has_edge (G s) a b \<and> \<not> (a = u \<and> b = v) \<and> \<not> (a = v \<and> b = u)"
    by blast
  have n: "\<not> has_edge g' n n" for n using g'(3) c(2) by blast
  have cg: "consistent (s\<lparr>G := g'\<rparr>)" by (rule consistent_graph[OF c0 g'(2) n])
  have "consistent (s\<lparr>G := g', edges_table := tbl\<rparr>)"
    if "delete_edge u v (edges_table s) = Some tbl" for tbl
  proof -
    have r: "a \<noteq> b" if "(a, b) \<in> set tbl" for a b
      using that delete_edge_subset[OF \<open>delete_edge u v (edges_table s) = Some tbl\<close>] c(3) by blast
    have "consistent ((s\<lparr>G := g'\<rparr>)\<lparr>edges_table := tbl\<rparr>)"
      by (rule consistent_table[OF cg]) (rule r)
    then show ?thesis by simp
  qed
  with g' cg show ?thesis by blast
qed

lemma remove_absent_edge:
  "\<not> has_edge (G s) u v \<Longrightarrow>
     remove_selected_edge (Selected u v) s =
       (case delete_edge u v (edges_table s) of
          None \<Rightarrow> (Unhandled_OverflowError, s)
        | Some tbl \<Rightarrow> (Log_removed_edge u v, s\<lparr>edges_table := tbl\<rparr>))"
  by (simp add: remove_selected_edge_def split: option.splits)

lemma consistent_remove_selected_edge:
  assumes "consistent s" shows "consistent (snd (remove_selected_edge sel s))"
proof (cases sel)
  case Nothing_selected
  then show ?thesis using assms by (simp add: remove_selected_edge_def)
next
  case Unreadable
  then show ?thesis using assms by (simp add: remove_selected_edge_def)
next
  case (Selected u v)
  show ?thesis
  proof (cases "has_edge (G s) u v")
    case True
    from removal_cases[OF assms True] show ?thesis
      using True Selected by (auto simp: remove_selected_edge_def split: option.splits)
  next
    case False
    have "consistent (s\<lparr>edges_table := tbl\<rparr>)" if d: "delete_edge u v (edges_table s) = Some tbl" for tbl
    proof (rule consistent_table[OF assms])
      show "a \<noteq> b" if "(a, b) \<in> set tbl" for a b
        using that delete_edge_subset[OF d] consistentD(3)[OF assms] by blast
    qed
    then show ?thesis using remove_absent_edge[OF False] assms Selected
      by (auto split: option.splits)
  qed
qed

lemma consistent_remove_edge:
  assumes "consistent s" shows "consistent (snd (remove_edge i s))"
proof (cases "edges_nx (G s) \<noteq> [] \<and> i < length (edges_nx (G s))")
  case False
  then show ?thesis using assms by (auto simp: remove_edge_def Let_def)
next
  case True
  obtain u v where uv: "edges_nx (G s) ! i = (u, v)" by (cases "edges_nx (G s) ! i")
  have "(u, v) \<in> set (edges_nx (G s))" using True uv nth_mem by metis
  then have "has_edge (G s) u v" using edges_nx_sound consistentD(1)[OF assms] by blast
  from removal_cases[OF assms this] show ?thesis
    using True uv by (auto simp: remove_edge_def Let_def split: option.splits)
qed

lemma consistent_add_edge:
  assumes "consistent s" shows "consistent (snd (add_edge i j s))"
proof (cases "2 \<le> length (nodes_nx (G s)) \<and> i < length (nodes_nx (G s)) \<and> j < length (nodes_nx (G s))
      \<and> i \<noteq> j \<and> \<not> has_edge (G s) (nodes_nx (G s) ! i) (nodes_nx (G s) ! j)")
  case False
  then have "snd (add_edge i j s) = s" by (auto simp: add_edge_def Let_def)
  then show ?thesis using assms by simp
next
  case True
  have "distinct (nodes_nx (G s))" using consistentD(1)[OF assms] by (simp add: well_formed_def)
  then have "nodes_nx (G s) ! i \<noteq> nodes_nx (G s) ! j" using True by (simp add: nth_eq_iff_index_eq)
  from consistent_animate_edge[OF assms this] show ?thesis using True by (simp add: add_edge_def Let_def)
qed

lemma consistent_reset_graph: "consistent s \<Longrightarrow> consistent (snd (reset_graph s))"
  by (simp add: consistent_def reset_graph_def)

lemma G_startup: "G (startup tbl) = graph_of tbl"
  by (simp add: startup_def load_from_db_def load_edges_def graph_of_def Let_def)

lemma edges_table_startup: "edges_table (startup tbl) = tbl"
  by (simp add: startup_def load_from_db_def Let_def)

lemma animations_startup: "animations (startup tbl) = []"
  by (simp add: startup_def load_from_db_def Let_def)

lemma well_formed_graph_of: "well_formed (graph_of es)"
  unfolding graph_of_def by (rule well_formed_graph_fold) simp

lemma has_edge_graph_of: "has_edge (graph_of es) a b \<longleftrightarrow> (a, b) \<in> set es \<or> (b, a) \<in> set es"
  unfolding graph_of_def by (simp add: has_edge_fold)

lemma consistent_startup:
  assumes "\<And>u v. (u, v) \<in> set tbl \<Longrightarrow> u \<noteq> v" shows "consistent (startup tbl)"
proof (rule consistentI)
  show "well_formed (G (startup tbl))" by (simp add: G_startup well_formed_graph_of)
  show "\<not> has_edge (G (startup tbl)) n n" for n
    using assms by (auto simp: G_startup has_edge_graph_of)
  show "a \<noteq> b" if "(a, b) \<in> set (edges_table (startup tbl))" for a b
    using that assms by (simp add: edges_table_startup)
  show "a \<noteq> b" if "(a, b) \<in> set (animations (startup tbl))" for a b
    using that by (simp add: animations_startup)
qed

lemma consistent_first_start: "consistent first_start"
  unfolding first_start_def by (rule consistent_startup) simp

lemma consistent_handle: assumes "consistent s" shows "consistent (snd (handle ev s))"
proof (cases ev)
  case Restart
  then show ?thesis using consistent_startup[of "edges_table s"] consistentD(3)[OF assms] by simp
qed (simp_all add: assms consistent_add_node consistent_add_edge_from_select
      consistent_animation_complete consistent_remove_selected_edge consistent_reset_graph
      consistent_add_edge consistent_remove_edge)

lemma consistent_run: "consistent s \<Longrightarrow> consistent (run evs s)"
  unfolding run_def by (induction evs arbitrary: s) (simp_all add: consistent_handle)

lemma consistent_reachable: "consistent (run evs first_start)"
  by (rule consistent_run[OF consistent_first_start])

text \<open>
  \<^verbatim>\<open>load_from_db\<close> itself does not look at the rows it loads: a row that joins a node to
  itself would become an edge. No handler writes such a row.
\<close>

lemma load_from_db_does_not_filter: "has_edge (G (startup [(1, 1)])) 1 1"
  by code_simp

section \<open>The lines of the box and the graph\<close>












section \<open>Edges without orientation\<close>

lemma save_edges_in_range:
  "\<forall>(u, v) \<in> set es. sqlite_integer u \<and> sqlite_integer v \<Longrightarrow> save_edges es tbl = Some (tbl @ es)"
  by (induction es arbitrary: tbl) (auto simp: save_edge_def)

lemma unordered_eq_iff:
  "unordered (a, b) = unordered (c, d) \<longleftrightarrow> (a = c \<and> b = d) \<or> (a = d \<and> b = c)"
  by (auto simp: unordered_def min_def max_def)

lemma unordered_edges_nx:
  assumes "well_formed g"
  shows "unordered ` set (edges_nx g) = unordered ` {(a, b). has_edge g a b}"
proof (intro set_eqI iffI)
  fix e assume "e \<in> unordered ` set (edges_nx g)"
  then obtain a b where "(a, b) \<in> set (edges_nx g)" "e = unordered (a, b)" by auto
  then show "e \<in> unordered ` {(a, b). has_edge g a b}"
    using edges_nx_sound[OF assms] by blast
next
  fix e assume "e \<in> unordered ` {(a, b). has_edge g a b}"
  then obtain a b where ab: "has_edge g a b" "e = unordered (a, b)" by auto
  have "unordered (b, a) = unordered (a, b)" unfolding unordered_eq_iff by simp
  with edges_nx_complete[OF assms ab(1)] ab(2) show "e \<in> unordered ` set (edges_nx g)"
    by (metis image_eqI)
qed

lemma distinct_unordered_edges_nx:
  assumes "well_formed g" shows "distinct (map unordered (edges_nx g))"
proof -
  have "inj_on unordered (set (edges_nx g))"
  proof (rule inj_onI)
    fix x y assume x: "x \<in> set (edges_nx g)" and y: "y \<in> set (edges_nx g)"
      and e: "unordered x = unordered y"
    obtain a b where xa: "x = (a, b)" by (cases x)
    obtain c d where yc: "y = (c, d)" by (cases y)
    from e have "(a = c \<and> b = d) \<or> (a = d \<and> b = c)" unfolding xa yc unordered_eq_iff .
    then show "x = y"
    proof
      assume "a = c \<and> b = d" then show ?thesis unfolding xa yc by simp
    next
      assume s: "a = d \<and> b = c"
      with x y have "(a, b) \<in> set (edges_nx g)" "(b, a) \<in> set (edges_nx g)" unfolding xa yc by simp_all
      from edges_nx_one_way[OF assms this] s show ?thesis unfolding xa yc by simp
    qed
  qed
  with distinct_edges_nx[OF assms] show ?thesis by (simp add: distinct_map)
qed

section \<open>Claims\<close>

text \<open>
  C1. In every state that any sequence of events leads to from the first start, the sum
  of the degrees of all nodes is twice \<^verbatim>\<open>G.number_of_edges()\<close>, that number is the number
  of edges that \<^verbatim>\<open>G.edges()\<close> lists, and \<^verbatim>\<open>verify_lemma\<close> finds the two sides equal.
\<close>

theorem handshaking_in_every_reachable_state:
  "sum_list (map snd (degree_nx (G (run evs first_start)))) =
     2 * number_of_edges (G (run evs first_start)) \<and>
   number_of_edges (G (run evs first_start)) = length (edges_nx (G (run evs first_start))) \<and>
   degree_sum (verify_lemma (G (run evs first_start))) =
     edge_twice (verify_lemma (G (run evs first_start))) \<and>
   verified (verify_lemma (G (run evs first_start)))"
proof -
  have w: "well_formed (G (run evs first_start))"
    by (rule consistentD(1)[OF consistent_reachable])
  have n: "number_of_edges (G (run evs first_start)) = length (edges_nx (G (run evs first_start)))"
    by (rule number_of_edges_well_formed[OF w])
  have h: "sum_list (map snd (degree_nx (G (run evs first_start)))) =
     2 * number_of_edges (G (run evs first_start))"
    unfolding n by (rule handshake[OF w])
  from h n show ?thesis by (simp add: verify_lemma_def Let_def)
qed

text \<open>
  C2. Saving pairs \<open>es\<close> whose ids the table can take (signed 64 bit) with \<^verbatim>\<open>save_edge\<close>
  into an empty table succeeds, and starting the program on that table gives a graph
  whose nodes are exactly the endpoints of \<open>es\<close> and whose edges, orientation set aside,
  are exactly the pairs of \<open>es\<close>, each listed once. For the pairs (1,2), (2,3), (3,1) the
  nodes shown are 1, 2, 3 and the edges shown are (1,2), (1,3), (2,3).
\<close>

theorem reload_gives_persisted_graph:
  assumes "\<forall>(u, v) \<in> set es. sqlite_integer u \<and> sqlite_integer v"
  shows "(case save_edges es [] of
            None \<Rightarrow> False
          | Some tbl \<Rightarrow>
              set (nodes_nx (G (startup tbl))) = fst ` set es \<union> snd ` set es \<and>
              unordered ` set (edges_nx (G (startup tbl))) = unordered ` set es \<and>
              distinct (map unordered (edges_nx (G (startup tbl))))) \<and>
         (case save_edges [(1, 2), (2, 3), (3, 1)] [] of
            None \<Rightarrow> False
          | Some tbl \<Rightarrow>
              nodes_display (G (startup tbl)) = [1, 2, 3] \<and>
              edge_list (G (startup tbl)) = [(1, 2), (1, 3), (2, 3)])"
proof -
  have s: "save_edges es [] = Some es" using save_edges_in_range[OF assms, of "[]"] by simp
  have g: "G (startup es) = graph_of es" by (rule G_startup)
  have 1: "set (nodes_nx (graph_of es)) = fst ` set es \<union> snd ` set es"
    unfolding graph_of_def set_nodes_fold by (simp add: nodes_nx_def)
  have "unordered ` {(a, b). has_edge (graph_of es) a b} = unordered ` set es"
  proof (intro set_eqI iffI)
    fix e assume "e \<in> unordered ` {(a, b). has_edge (graph_of es) a b}"
    then obtain a b where ab: "has_edge (graph_of es) a b" "e = unordered (a, b)" by auto
    have "unordered (b, a) = unordered (a, b)" unfolding unordered_eq_iff by simp
    with ab show "e \<in> unordered ` set es" unfolding has_edge_graph_of by (metis image_eqI)
  next
    fix e assume "e \<in> unordered ` set es"
    then obtain a b where "(a, b) \<in> set es" "e = unordered (a, b)" by auto
    then show "e \<in> unordered ` {(a, b). has_edge (graph_of es) a b}"
      using has_edge_graph_of by blast
  qed
  then have 2: "unordered ` set (edges_nx (graph_of es)) = unordered ` set es"
    using unordered_edges_nx[OF well_formed_graph_of] by simp
  have 3: "distinct (map unordered (edges_nx (graph_of es)))"
    by (rule distinct_unordered_edges_nx[OF well_formed_graph_of])
  have 4: "(case save_edges [(1, 2), (2, 3), (3, 1)] [] of
            None \<Rightarrow> False
          | Some tbl \<Rightarrow>
              nodes_display (G (startup tbl)) = [1, 2, 3] \<and>
              edge_list (G (startup tbl)) = [(1, 2), (1, 3), (2, 3)])"
    by code_simp
  have 5: "(case save_edges es [] of
            None \<Rightarrow> False
          | Some tbl \<Rightarrow>
              set (nodes_nx (G (startup tbl))) = fst ` set es \<union> snd ` set es \<and>
              unordered ` set (edges_nx (G (startup tbl))) = unordered ` set es \<and>
              distinct (map unordered (edges_nx (G (startup tbl)))))"
    unfolding s using 1 2 3 by (simp add: g)
  from 5 4 show ?thesis by (rule conjI)
qed

text \<open>C2 for the three pairs (1,2), (2,3), (3,1), all within the range of the table.\<close>

theorem reload_gives_persisted_graph_witness:
  "sqlite_integer 1 \<and> sqlite_integer 2 \<and> sqlite_integer 3 \<and>
   (case save_edges [(1, 2), (2, 3), (3, 1)] [] of
      None \<Rightarrow> False
    | Some tbl \<Rightarrow>
        set (nodes_nx (G (startup tbl))) = {1, 2, 3} \<and>
        unordered ` set (edges_nx (G (startup tbl))) = {(1, 2), (2, 3), (1, 3)} \<and>
        distinct (map unordered (edges_nx (G (startup tbl)))))"
proof -
  have r: "sqlite_integer 1 \<and> sqlite_integer 2 \<and> sqlite_integer 3"
    by (simp add: sqlite_integer_def)
  then have h: "\<forall>(u, v) \<in> set [(1 :: int, 2 :: int), (2, 3), (3, 1)]. sqlite_integer u \<and> sqlite_integer v"
    by simp
  have s: "save_edges [(1, 2), (2, 3), (3, 1)] [] = Some [(1, 2), (2, 3), (3, 1)]"
    using r by (simp add: save_edge_def)
  have "fst ` set [(1 :: int, 2 :: int), (2, 3), (3, 1)] \<union> snd ` set [(1 :: int, 2 :: int), (2, 3), (3, 1)]
      = {1, 2, 3}" by auto
  moreover have "unordered ` set [(1 :: int, 2 :: int), (2, 3), (3, 1)] = {(1, 2), (2, 3), (1, 3)}"
    by (auto simp: unordered_def)
  ultimately have "set (nodes_nx (G (startup [(1, 2), (2, 3), (3, 1)]))) = {1, 2, 3} \<and>
        unordered ` set (edges_nx (G (startup [(1, 2), (2, 3), (3, 1)]))) = {(1, 2), (2, 3), (1, 3)} \<and>
        distinct (map unordered (edges_nx (G (startup [(1, 2), (2, 3), (3, 1)]))))"
    using reload_gives_persisted_graph[OF h] unfolding s by simp
  with r show ?thesis unfolding s by simp
qed

text \<open>
  C3 (amended). For every graph, \<^verbatim>\<open>euler_path_check\<close> reports a circuit exactly when no
  node has odd degree, a path exactly when exactly two have, and otherwise "none" with
  the number of odd-degree nodes; only degrees are looked at, so two triangles that are
  not connected still give a circuit. A triangle gives a circuit and the path 1-2-3 a
  path. A star with three leaves gives "none" with odd count 4: the centre has degree 3
  and each of the three leaves degree 1.
\<close>

theorem euler_path_check_by_parity:
  "(euler_path_check g = Euler_circuit \<longleftrightarrow> length (odd_degree_nodes g) = 0) \<and>
   (euler_path_check g = Euler_path \<longleftrightarrow> length (odd_degree_nodes g) = 2) \<and>
   (euler_path_check g = No_euler k \<longleftrightarrow>
      length (odd_degree_nodes g) = k \<and> k \<noteq> 0 \<and> k \<noteq> 2) \<and>
   euler_path_check triangle = Euler_circuit \<and>
   euler_path_check path_1_2_3 = Euler_path \<and>
   euler_path_check star_3_leaves = No_euler 4 \<and>
   euler_path_check two_triangles = Euler_circuit"
proof -
  have "euler_path_check triangle = Euler_circuit" by code_simp
  moreover have "euler_path_check path_1_2_3 = Euler_path" by code_simp
  moreover have "euler_path_check star_3_leaves = No_euler 4" by code_simp
  moreover have "euler_path_check two_triangles = Euler_circuit" by code_simp
  ultimately show ?thesis by (auto simp: euler_path_check_def)
qed

text \<open>
  C3 as stated fails on the star: its degrees are 3, 1, 1, 1, so four nodes are odd and
  the reported count is not 3.
\<close>

theorem star_odd_count_is_not_three:
  "map snd (degree_nx star_3_leaves) = [3, 1, 1, 1] \<and>
   euler_path_check star_3_leaves \<noteq> No_euler 3"
proof -
  have "map snd (degree_nx star_3_leaves) = [3, 1, 1, 1]" by code_simp
  moreover have "euler_path_check star_3_leaves = No_euler 4" by code_simp
  ultimately show ?thesis by simp
qed

text \<open>
  C4. A request to join a node to itself is answered with the error "Cannot connect a
  node to itself." and changes nothing: the whole state is the one before, so the node
  list, the edge list, the edge table and the animations in flight are the same.
\<close>

theorem self_loop_request_rejected:
  "add_edge_from_select (Some u) (Some u) s = (Error_cannot_connect_to_itself, s) \<and>
   nodes_display (G (snd (add_edge_from_select (Some u) (Some u) s))) = nodes_display (G s) \<and>
   edge_list (G (snd (add_edge_from_select (Some u) (Some u) s))) = edge_list (G s) \<and>
   edges_table (snd (add_edge_from_select (Some u) (Some u) s)) = edges_table s \<and>
   animations (snd (add_edge_from_select (Some u) (Some u) s)) = animations s"
  by (simp add: add_edge_from_select_def)

text \<open>
  C5. In every reachable state that has the edge \<open>(u, v)\<close>, a request for \<open>(v, u)\<close> is
  answered with the information "Edge v-u already exists." and changes nothing: no
  animation starts, so nothing is added to the graph and no row is written. (An edge of
  a reachable state always joins two different nodes.)
\<close>

theorem reversed_request_is_duplicate:
  assumes "has_edge (G (run evs first_start)) u v"
  shows "add_edge_from_select (Some v) (Some u) (run evs first_start)
           = (Info_edge_already_exists v u, run evs first_start)"
proof -
  note c = consistent_reachable[of evs]
  have "u \<noteq> v" using assms consistent_no_self_loop[OF c] by blast
  moreover have "has_edge (G (run evs first_start)) v u"
    using assms consistent_symmetric[OF c] by blast
  ultimately show ?thesis by (simp add: add_edge_from_select_def)
qed

text \<open>C5 after the edge 1-2 has been added: the request for 2-1 is a duplicate.\<close>

theorem reversed_request_is_duplicate_witness:
  "has_edge (G (run [Add_edge_from_select (Some 1) (Some 2), Animation_complete 0] first_start)) 1 2 \<and>
   add_edge_from_select (Some 2) (Some 1)
       (run [Add_edge_from_select (Some 1) (Some 2), Animation_complete 0] first_start)
     = (Info_edge_already_exists 2 1,
        run [Add_edge_from_select (Some 1) (Some 2), Animation_complete 0] first_start)"
proof -
  have h: "has_edge (G (run [Add_edge_from_select (Some 1) (Some 2), Animation_complete 0] first_start)) 1 2"
    by code_simp
  from h reversed_request_is_duplicate[OF h] show ?thesis by blast
qed




text \<open>
  C7 fails in the code. After the first start, joining 1 and 2 through the From and To
  fields creates the nodes 1 and 2 and leaves the allocator at 1; \<^verbatim>\<open>add_node\<close> then
  logs "Added Node 1", the graph stays as it was, and node 1 has degree 1, not 0.
\<close>

theorem add_node_reuses_id_of_implicit_node:
  "nodes_nx (G (run [Add_edge_from_select (Some 1) (Some 2), Animation_complete 0] first_start)) = [1, 2] \<and>
   next_node_id (run [Add_edge_from_select (Some 1) (Some 2), Animation_complete 0] first_start) = 1 \<and>
   fst (add_node (run [Add_edge_from_select (Some 1) (Some 2), Animation_complete 0] first_start))
     = Log_added_node 1 \<and>
   G (snd (add_node (run [Add_edge_from_select (Some 1) (Some 2), Animation_complete 0] first_start)))
     = G (run [Add_edge_from_select (Some 1) (Some 2), Animation_complete 0] first_start) \<and>
   degree_nx (G (snd (add_node
       (run [Add_edge_from_select (Some 1) (Some 2), Animation_complete 0] first_start))))
     = [(1, 1), (2, 1)]"
  by code_simp

text \<open>
  C8. In every state that any sequence of events leads to from the first start,
  restarts on the table left behind included, no node is joined to itself: not in the
  graph, not in the edge list shown, not in the edge table.
\<close>

theorem no_self_loop_in_reachable_state:
  "\<not> has_edge (G (run evs first_start)) n n \<and>
   (n, n) \<notin> set (edges_nx (G (run evs first_start))) \<and>
   (n, n) \<notin> set (edge_list (G (run evs first_start))) \<and>
   (n, n) \<notin> set (edges_table (run evs first_start))"
proof -
  note c = consistent_reachable[of evs]
  have 1: "\<not> has_edge (G (run evs first_start)) n n" by (rule consistent_no_self_loop[OF c])
  then have 2: "(n, n) \<notin> set (edges_nx (G (run evs first_start)))"
    using edges_nx_sound[OF consistentD(1)[OF c]] by blast
  then have 3: "(n, n) \<notin> set (edge_list (G (run evs first_start)))" by (simp add: edge_list_def)
  have 4: "(n, n) \<notin> set (edges_table (run evs first_start))" using consistentD(3)[OF c] by blast
  from 1 2 3 4 show ?thesis by blast
qed

text \<open>
  C9 (amended). In every reachable state the edge list shown is sorted ascending by
  \<open>(u, v)\<close> and holds every edge of the graph exactly once, in one of its two
  orientations: the one \<^verbatim>\<open>G.edges()\<close> gives, with the endpoint that comes first in the
  node list first. That need not be the smaller id.
\<close>

theorem edge_list_sorted_each_edge_once:
  "sorted (edge_list (G (run evs first_start))) \<and>
   distinct (map unordered (edge_list (G (run evs first_start)))) \<and>
   (has_edge (G (run evs first_start)) u v \<longleftrightarrow>
      (u, v) \<in> set (edge_list (G (run evs first_start))) \<or>
      (v, u) \<in> set (edge_list (G (run evs first_start)))) \<and>
   ((u, v) \<in> set (edge_list (G (run evs first_start))) \<longrightarrow>
      (v, u) \<notin> set (edge_list (G (run evs first_start))) \<and>
      (\<exists>pre post. nodes_nx (G (run evs first_start)) = pre @ u # post \<and> v \<in> set post))"
proof -
  note c = consistent_reachable[of evs]
  note w = consistentD(1)[OF c]
  let ?g = "G (run evs first_start)"
  have s: "set (edge_list ?g) = set (edges_nx ?g)" by (simp add: edge_list_def)
  have 1: "sorted (edge_list ?g)" by (simp add: edge_list_def)
  have 2: "distinct (map unordered (edge_list ?g))"
    using distinct_unordered_edges_nx[OF w] by (simp add: distinct_map edge_list_def)
  have sym: "has_edge ?g v u \<longleftrightarrow> has_edge ?g u v" using consistent_symmetric[OF c] by blast
  have 3: "has_edge ?g u v \<longleftrightarrow> (u, v) \<in> set (edge_list ?g) \<or> (v, u) \<in> set (edge_list ?g)"
    unfolding s using edges_nx_sound[OF w] edges_nx_complete[OF w] sym by blast
  have 4: "(v, u) \<notin> set (edge_list ?g) \<and> (\<exists>pre post. nodes_nx ?g = pre @ u # post \<and> v \<in> set post)"
    if a: "(u, v) \<in> set (edge_list ?g)"
  proof -
    from a have e: "(u, v) \<in> set (edges_nx ?g)" unfolding s .
    then have "has_edge ?g u v" by (rule edges_nx_sound[OF w])
    with consistent_no_self_loop[OF c] have ne: "u \<noteq> v" by blast
    have "(v, u) \<notin> set (edges_nx ?g)" using edges_nx_one_way[OF w e] ne by blast
    with edges_nx_order[OF w e ne] show ?thesis unfolding s by blast
  qed
  from 1 2 3 4 show ?thesis by blast
qed

text \<open>C9 (amended) after joining 2 to 1 on an empty graph: node 2 was inserted first.\<close>

theorem edge_list_sorted_each_edge_once_witness:
  "(2, 1) \<in> set (edge_list (G (run [Add_edge_from_select (Some 2) (Some 1), Animation_complete 0] first_start))) \<and>
   (1, 2) \<notin> set (edge_list (G (run [Add_edge_from_select (Some 2) (Some 1), Animation_complete 0] first_start))) \<and>
   (\<exists>pre post.
      nodes_nx (G (run [Add_edge_from_select (Some 2) (Some 1), Animation_complete 0] first_start))
        = pre @ 2 # post \<and> 1 \<in> set post)"
proof -
  have h: "(2, 1) \<in> set (edge_list (G (run [Add_edge_from_select (Some 2) (Some 1), Animation_complete 0] first_start)))"
    by code_simp
  from h edge_list_sorted_each_edge_once
           [of "[Add_edge_from_select (Some 2) (Some 1), Animation_complete 0]" 2 1]
  show ?thesis by blast
qed

text \<open>
  C9 as stated fails: after joining 2 to 1 on an empty graph the edge list shows (2, 1).
\<close>

theorem edge_list_keeps_insertion_orientation:
  "edge_list (G (run [Add_edge_from_select (Some 2) (Some 1), Animation_complete 0] first_start))
     = [(2, 1)] \<and> \<not> (2 :: int) < 1"
proof -
  have "edge_list (G (run [Add_edge_from_select (Some 2) (Some 1), Animation_complete 0] first_start))
     = [(2, 1)]" by code_simp
  then show ?thesis by simp
qed

text \<open>
  C10. \<^verbatim>\<open>_finalize_add_edge\<close> asks \<^verbatim>\<open>has_edge\<close> again before it changes anything: for a
  pair that is already an edge it leaves graph and table as they are, running it twice
  gives the state that running it once gives, and two overlapping requests for the same
  pair that both complete leave the state that one request leaves, with one row.
\<close>

theorem finalize_add_edge_rechecks:
  "(has_edge (G s) u v \<longrightarrow> finalize_add_edge u v s = (Silent, s)) \<and>
   snd (finalize_add_edge u v (snd (finalize_add_edge u v s))) = snd (finalize_add_edge u v s) \<and>
   run [Add_edge_from_select (Some u) (Some v), Add_edge_from_select (Some u) (Some v),
        Animation_complete (length (animations s)), Animation_complete (length (animations s))] s
     = run [Add_edge_from_select (Some u) (Some v), Animation_complete (length (animations s))] s"
proof -
  have a: "has_edge (G s) u v \<longrightarrow> finalize_add_edge u v s = (Silent, s)"
    by (simp add: finalize_add_edge_def)
  have b: "snd (finalize_add_edge u v (snd (finalize_add_edge u v s))) = snd (finalize_add_edge u v s)"
    by (simp add: finalize_add_edge_def has_edge_add_edge_nx split: option.splits)
  have c: "run [Add_edge_from_select (Some u) (Some v), Add_edge_from_select (Some u) (Some v),
        Animation_complete (length (animations s)), Animation_complete (length (animations s))] s
     = run [Add_edge_from_select (Some u) (Some v), Animation_complete (length (animations s))] s"
    by (simp add: run_def add_edge_from_select_def animate_edge_def animation_complete_def
        finalize_add_edge_def has_edge_add_edge_nx nth_append split: option.splits)
  from a b c show ?thesis by blast
qed

text \<open>C10 at a state in which the edge 1-2 is present.\<close>

theorem finalize_add_edge_rechecks_witness:
  "has_edge (G (run [Add_edge_from_select (Some 1) (Some 2), Animation_complete 0] first_start)) 1 2 \<and>
   finalize_add_edge 1 2 (run [Add_edge_from_select (Some 1) (Some 2), Animation_complete 0] first_start)
     = (Silent, run [Add_edge_from_select (Some 1) (Some 2), Animation_complete 0] first_start)"
proof -
  have h: "has_edge (G (run [Add_edge_from_select (Some 1) (Some 2), Animation_complete 0] first_start)) 1 2"
    by code_simp
  from finalize_add_edge_rechecks
         [of "run [Add_edge_from_select (Some 1) (Some 2), Animation_complete 0] first_start" 1 2] h
  show ?thesis by blast
qed

end
